theory Spec2Isabelle
  imports Main
begin

text \<open>
  A shallow embedding of the harvesting-and-assembly pipeline of docusaurus-docs-to-pdf:
  the navigation extractor and its identifier generator, the tree flattener, the worker
  pool and the page task it drives, the link rewriter, the document assembler and the
  exit path of the command-line entry point. The browser is an environment: what the
  code asks of it (documents, the outcome of navigation, the clock, random numbers) is
  an argument of the model, and every exception the code can meet is a value.
\<close>

section \<open>Data model (src/type.ts)\<close>

text \<open>
  A \<open>SidebarItem\<close> is one entry of the Docusaurus sidebar: a title, a generated id, the
  raw href (\<open>path\<close>), the resolved address (\<open>url\<close>) and the ordered children. The
  interface is recursive, so it is a datatype with selectors rather than a record.
  JavaScript strings are modelled as \<open>string\<close>.
\<close>

datatype SidebarItem =
  SidebarItem (item_title: string) (item_id: string) (item_path: string)
    (item_url: string) (item_children: "SidebarItem list")

text \<open>\<open>PageDetails\<close>: the metadata of a page together with its extracted markup.\<close>

record PageDetails =
  pd_id :: string
  pd_title :: string
  pd_url :: string
  pd_path :: string
  pd_html :: string

section \<open>String primitives\<close>

text \<open>\<open>String.prototype.endsWith\<close>: the last characters of \<open>s\<close> are exactly \<open>t\<close>.\<close>

definition endsWith :: "string \<Rightarrow> string \<Rightarrow> bool" where
  "endsWith s t = (length t \<le> length s \<and> drop (length s - length t) s = t)"

text \<open>\<open>String.prototype.substring(k)\<close> with one argument drops the first \<open>k\<close> characters.\<close>

definition substring :: "string \<Rightarrow> nat \<Rightarrow> string" where
  "substring s k = drop k s"

text \<open>
  \<open>Number.prototype.toString()\<close> on a non-negative integer: its decimal digits, most
  significant first, with no sign and no leading zero.
\<close>

definition digitChar :: "nat \<Rightarrow> char" where
  "digitChar d = ''0123456789'' ! (d mod 10)"

fun toDecimal :: "nat \<Rightarrow> string" where
  "toDecimal n = (if n < 10 then [digitChar n] else toDecimal (n div 10) @ [digitChar (n mod 10)])"

declare toDecimal.simps [simp del]

definition isDigit :: "char \<Rightarrow> bool" where
  "isDigit c = (c \<in> set ''0123456789'')"

definition isLetter :: "char \<Rightarrow> bool" where
  "isLetter c = (c \<in> set ''abcdefghijklmnopqrstuvwxyzABCDEFGHIJKLMNOPQRSTUVWXYZ'')"

definition isBase36 :: "char \<Rightarrow> bool" where
  "isBase36 c = (c \<in> set ''0123456789abcdefghijklmnopqrstuvwxyz'')"

text \<open>
  What \<open>Math.random().toString(36)\<close> can look like: the number is in \<open>[0, 1)\<close>, so the
  text is \<open>0\<close> alone or \<open>0.\<close> followed by base-36 digits. The floating-point value
  itself is not modelled: the generator below receives this text.
\<close>

definition radix36Fraction :: "string \<Rightarrow> bool" where
  "radix36Fraction r =
     (r = ''0'' \<or> (take 2 r = ''0.'' \<and> drop 2 r \<noteq> [] \<and> list_all isBase36 (drop 2 r)))"

text \<open>
  The syntactic constraint on an anchor identifier: it starts with a letter, and goes on
  with letters, digits, hyphens, underscores, colons and periods only (the HTML 4 rule
  for \<open>id\<close>, which also makes \<open>#id\<close> a CSS selector when no colon or period occurs).
\<close>

definition anchorSafe :: "string \<Rightarrow> bool" where
  "anchorSafe s =
     (s \<noteq> [] \<and> isLetter (hd s) \<and> list_all (\<lambda>c. isLetter c \<or> isDigit c \<or> c \<in> set ''-_:.'') s)"

section \<open>Tree flattener (extractPages, nested in buildPageDetailsParallel)\<close>

text \<open>
  The loop over \<open>items\<close> pushes an item onto the accumulator when it has no children and
  a url that is truthy (non-empty), different from \<open>#\<close> and not ending in \<open>/#\<close>; it
  then descends into the children when there are any. The accumulator is threaded
  through, as the source mutates one shared array.
\<close>

fun extractPages :: "SidebarItem list \<Rightarrow> SidebarItem list \<Rightarrow> SidebarItem list" where
  "extractPages [] flattenedList = flattenedList"
| "extractPages (SidebarItem t i p u cs # items) flattenedList =
     (let l1 = (if length cs = 0 \<and> u \<noteq> [] \<and> u \<noteq> ''#'' \<and> \<not> endsWith u ''/#''
                then flattenedList @ [SidebarItem t i p u cs] else flattenedList);
          l2 = (if length cs > 0 then extractPages cs l1 else l1)
      in extractPages items l2)"

text \<open>Document order as the specification words it: pre-order, depth first.\<close>

fun preorder :: "SidebarItem list \<Rightarrow> SidebarItem list" where
  "preorder [] = []"
| "preorder (SidebarItem t i p u cs # items) =
     SidebarItem t i p u cs # preorder cs @ preorder items"

text \<open>The leaf predicate of the specification (section 4.3).\<close>

definition isLeafPage :: "SidebarItem \<Rightarrow> bool" where
  "isLeafPage item =
     (item_children item = [] \<and> item_url item \<noteq> [] \<and> item_url item \<noteq> ''#''
      \<and> \<not> endsWith (item_url item) ''/#'')"


section \<open>Identifier assigner (generateValidHtmlId, nested in extractDocusaurusSidebarItems)\<close>

text \<open>
  The function reads the clock and the random source and nothing else. The model takes
  both readings as arguments: \<open>now\<close> for \<open>Date.now()\<close> (milliseconds, a natural
  number) and \<open>randomText\<close> for \<open>Math.random().toString(36)\<close>.
\<close>

definition generateValidHtmlId :: "nat \<Rightarrow> string \<Rightarrow> string" where
  "generateValidHtmlId now randomText =
     (let randomPart = substring randomText 2;
          timestampPart = substring (toDecimal now) 5
      in ''id-'' @ timestampPart @ randomPart)"

section \<open>Navigation extractor (parseListItems, nested in extractDocusaurusSidebarItems)\<close>

text \<open>
  The part of the sidebar's DOM the extractor reads. Of a list entry it asks two
  questions: the link element found by the first \<open>querySelector\<close> (or null), and the
  nested \<open>ul.menu__list\<close> found by the second (or null), whose element children are
  the next level's entries. Of the link it reads \<open>textContent\<close> (nullable in the
  DOM's typing), the \<open>href\<close> attribute (null when absent) and the resolved \<open>href\<close>
  property.
\<close>

record anchor =
  a_textContent :: "string option"
  a_hrefAttribute :: "string option"
  a_href :: string

datatype li = Li (li_anchor: "anchor option") (li_subList: "li list option")

text \<open>\<open>String.prototype.trim\<close> on the white space of the 8-bit character set.\<close>

definition isSpace :: "char \<Rightarrow> bool" where
  "isSpace c = (c \<in> set [CHR '' '', CHR 0x09, CHR 0x0A, CHR 0x0B, CHR 0x0C, CHR 0x0D])"

definition trim :: "string \<Rightarrow> string" where
  "trim s = rev (dropWhile isSpace (rev (dropWhile isSpace s)))"

text \<open>\<open>x || ''\<close> on a nullable string: null and the empty string both give \<open>''\<close>.\<close>

definition orEmpty :: "string option \<Rightarrow> string" where
  "orEmpty x = (case x of None \<Rightarrow> [] | Some v \<Rightarrow> v)"

definition anchorTitle :: "anchor \<Rightarrow> string" where
  "anchorTitle a = (case a_textContent a of None \<Rightarrow> [] | Some t \<Rightarrow> if t = [] then [] else trim t)"

text \<open>
  The clock and the random source are an environment: the \<open>k\<close>-th identifier generated
  during one extraction reads \<open>draws k\<close>. The number of identifiers generated so far is
  the state threaded through the recursion. As in the source, an entry with no link is
  left by \<open>continue\<close> before its nested list is looked at, the children are parsed before
  the entry's own identifier is generated, and the entry is pushed onto the level's
  array.
\<close>

type_synonym draws = "nat \<Rightarrow> nat \<times> string"

fun parseListItems :: "draws \<Rightarrow> li list \<Rightarrow> SidebarItem list \<Rightarrow> nat \<Rightarrow> SidebarItem list \<times> nat" where
  "parseListItems env [] sidebarItems k = (sidebarItems, k)"
| "parseListItems env (Li None sub # lis) sidebarItems k = parseListItems env lis sidebarItems k"
| "parseListItems env (Li (Some a) None # lis) sidebarItems k =
     parseListItems env lis
       (sidebarItems @
          [SidebarItem (anchorTitle a) (generateValidHtmlId (fst (env k)) (snd (env k)))
             (orEmpty (a_hrefAttribute a)) (a_href a) []])
       (Suc k)"
| "parseListItems env (Li (Some a) (Some subList) # lis) sidebarItems k =
     (case parseListItems env subList [] k of
        (children, k1) \<Rightarrow>
          parseListItems env lis
            (sidebarItems @
               [SidebarItem (anchorTitle a) (generateValidHtmlId (fst (env k1)) (snd (env k1)))
                  (orEmpty (a_hrefAttribute a)) (a_href a) children])
            (Suc k1))"

definition extractDocusaurusSidebarItems :: "draws \<Rightarrow> li list \<Rightarrow> SidebarItem list" where
  "extractDocusaurusSidebarItems env topLevelListItems =
     fst (parseListItems env topLevelListItems [] 0)"

text \<open>
  The entries that the specification keeps: those with a link whose every ancestor entry
  has a link too, in document order. An entry without a link is dropped with everything
  below it.
\<close>

fun keptLinks :: "li list \<Rightarrow> anchor list" where
  "keptLinks [] = []"
| "keptLinks (Li None sub # lis) = keptLinks lis"
| "keptLinks (Li (Some a) None # lis) = a # keptLinks lis"
| "keptLinks (Li (Some a) (Some subList) # lis) = a # keptLinks subList @ keptLinks lis"

text \<open>All links of a list of entries, whatever their ancestors.\<close>

fun everyLink :: "li list \<Rightarrow> anchor list" where
  "everyLink [] = []"
| "everyLink (Li a sub # lis) =
     (case a of None \<Rightarrow> [] | Some x \<Rightarrow> [x]) @ (case sub of None \<Rightarrow> [] | Some subList \<Rightarrow> everyLink subList)
       @ everyLink lis"

section \<open>Link rewriter (rewriteLinks)\<close>

text \<open>
  The document is read through \<open>querySelectorAll('a[href]')\<close>: the model is the list of
  the \<open>href\<close> attribute values of those elements, in document order. The inner loop
  stops at the first pair whose path is string-equal to the link's href.
\<close>

fun rewriteHref :: "(string \<times> string) list \<Rightarrow> string \<Rightarrow> string" where
  "rewriteHref [] linkPath = linkPath"
| "rewriteHref ((path, anchor) # pathToAnchors) linkPath =
     (if linkPath = path then ''#'' @ anchor else rewriteHref pathToAnchors linkPath)"

definition rewriteLinks :: "(string \<times> string) list \<Rightarrow> string list \<Rightarrow> string list" where
  "rewriteLinks pathToAnchors allLinks = map (rewriteHref pathToAnchors) allLinks"


section \<open>Content harvester (updateElementId, getElementOuterHtml, processSinglePage)\<close>

text \<open>
  The part of a loaded page the harvester touches. An element has a tag, an \<open>id\<close>, the
  \<open>page-break-after\<close> entry of its inline style and the rest of its markup; the
  browser decides which elements a selector matches, so every element carries the
  selectors other than \<open>#id\<close> that match it, and a selector \<open>#x\<close> matches the
  elements whose id is \<open>x\<close>. A document is its elements in document order, and
  \<open>querySelector\<close> returns a handle (the position) of the first match, or null.
  Selectors are taken to be well formed: the model has no syntax-error outcome.
\<close>

record element =
  el_tag :: string
  el_id :: string
  el_pageBreakAfter :: string
  el_inner :: string
  el_selectors :: "string list"

type_synonym document = "element list"

definition matchesSelector :: "string \<Rightarrow> element \<Rightarrow> bool" where
  "matchesSelector selector e =
     (case selector of
        c # rest \<Rightarrow> if c = CHR ''#'' then el_id e = rest else selector \<in> set (el_selectors e)
      | [] \<Rightarrow> False)"

fun findIndex :: "('a \<Rightarrow> bool) \<Rightarrow> 'a list \<Rightarrow> nat option" where
  "findIndex P [] = None"
| "findIndex P (x # xs) = (if P x then Some 0 else map_option Suc (findIndex P xs))"

definition querySelector :: "document \<Rightarrow> string \<Rightarrow> nat option" where
  "querySelector doc selector = findIndex (matchesSelector selector) doc"

text \<open>The serialisation of an element, restricted to the attributes of the model.\<close>

definition outerHTML :: "element \<Rightarrow> string" where
  \<open>outerHTML e =
     ''<'' @ el_tag e @ '' id="'' @ el_id e @ ''"''
       @ (if el_pageBreakAfter e = [] then []
          else '' style="page-break-after: '' @ el_pageBreakAfter e @ '';"'')
       @ ''>'' @ el_inner e @ ''</'' @ el_tag e @ ''>''\<close>

datatype error =
  TypeError | NavigationError | WaitTimeout | NewPageError | ClosePageError | PoolRejected

text \<open>
  \<open>updateElementId\<close> dereferences the result of \<open>querySelector\<close> without a check: a
  null result raises a TypeError, as its own documentation says.
\<close>

definition updateElementId :: "document \<Rightarrow> string \<Rightarrow> string \<Rightarrow> error + document" where
  "updateElementId doc selector newId =
     (case querySelector doc selector of
        None \<Rightarrow> Inl TypeError
      | Some i \<Rightarrow> Inr (doc[i := (doc ! i)\<lparr>el_id := newId\<rparr>]))"

text \<open>
  \<open>getElementOuterHtml\<close> returns the document after the call and the text it returns:
  the styled element's markup when an element is found, the empty string otherwise.
\<close>

definition getElementOuterHtml :: "document \<Rightarrow> string \<Rightarrow> document \<times> string" where
  "getElementOuterHtml doc selector =
     (case querySelector doc selector of
        Some i \<Rightarrow>
          (let element = (doc ! i)\<lparr>el_pageBreakAfter := ''always''\<rparr>
           in (doc[i := element], outerHTML element))
      | None \<Rightarrow> (doc, []))"

text \<open>
  What the browser does for one page task: whether \<open>browser.newPage()\<close> resolves, the
  document that \<open>page.goto\<close> leaves loaded (none when the navigation is rejected or
  times out), what the page's own scripts make of the document when the collapsed
  \<open>details\<close> are clicked open, and whether \<open>page.close()\<close> resolves.
  \<open>page.waitForSelector\<close> resolves when the loaded document has a match and times out
  otherwise; \<open>page.evaluate(f, ...)\<close> runs \<open>f\<close> on the page's document and is
  rejected exactly when \<open>f\<close> raises.
\<close>

record page_env =
  newPage_ok :: bool
  goto_result :: "document option"
  click_effect :: "document \<Rightarrow> document"
  close_ok :: bool

definition contentSelector :: string where
  \<open>contentSelector = ''div[class^="docItemContainer"]>article>div[class*="theme-doc-markdown"]''\<close>

text \<open>The calls a page task makes on the browser, in the order it makes them.\<close>

datatype event =
  Acquired | Goto string | WaitForSelector | ExpandDetails | UpdateElementId string
  | GetElementOuterHtml string | LoggedError | ClosePage

text \<open>The body of the \<open>try\<close> block: the calls made, and the markup or the error raised.\<close>

definition harvestSteps :: "page_env \<Rightarrow> SidebarItem \<Rightarrow> event list \<times> (error + string)" where
  "harvestSteps env sidebarItem =
     (case goto_result env of
        None \<Rightarrow> ([Goto (item_url sidebarItem)], Inl NavigationError)
      | Some doc \<Rightarrow>
          (case querySelector doc contentSelector of
             None \<Rightarrow> ([Goto (item_url sidebarItem), WaitForSelector], Inl WaitTimeout)
           | Some _ \<Rightarrow>
               (let doc1 = click_effect env doc in
                (case updateElementId doc1 contentSelector (item_id sidebarItem) of
                   Inl e \<Rightarrow>
                     ([Goto (item_url sidebarItem), WaitForSelector, ExpandDetails,
                       UpdateElementId (item_id sidebarItem)], Inl e)
                 | Inr doc2 \<Rightarrow>
                     (case getElementOuterHtml doc2 (''#'' @ item_id sidebarItem) of
                        (doc3, html) \<Rightarrow>
                          ([Goto (item_url sidebarItem), WaitForSelector, ExpandDetails,
                            UpdateElementId (item_id sidebarItem),
                            GetElementOuterHtml (''#'' @ item_id sidebarItem)], Inr html))))))"

text \<open>\<open>{...sidebarItem, html}\<close>, read at the type \<open>PageDetails\<close>.\<close>

definition pageDetailsOf :: "SidebarItem \<Rightarrow> string \<Rightarrow> PageDetails" where
  "pageDetailsOf sidebarItem html =
     \<lparr>pd_id = item_id sidebarItem, pd_title = item_title sidebarItem,
      pd_url = item_url sidebarItem, pd_path = item_path sidebarItem, pd_html = html\<rparr>"

text \<open>
  \<open>processSinglePage\<close>: the page is created before the \<open>try\<close>, so a rejected
  \<open>newPage\<close> leaves the function by an exception; the \<open>catch\<close> turns every error of
  the body into a result with empty markup; the \<open>finally\<close> closes the page, and a
  rejected \<open>close\<close> replaces the result by its exception.
\<close>

definition processSinglePage :: "page_env \<Rightarrow> SidebarItem \<Rightarrow> event list \<times> (error + PageDetails)" where
  "processSinglePage env sidebarItem =
     (if \<not> newPage_ok env then ([], Inl NewPageError)
      else
        (case harvestSteps env sidebarItem of
           (calls, outcome) \<Rightarrow>
             (let (calls1, result) =
                    (case outcome of
                       Inr html \<Rightarrow> (calls, pageDetailsOf sidebarItem html)
                     | Inl e \<Rightarrow> (calls @ [LoggedError], pageDetailsOf sidebarItem []))
              in (Acquired # calls1 @ [ClosePage],
                  if close_ok env then Inr result else Inl ClosePageError))))"

section \<open>Worker pool (buildPageDetailsParallel)\<close>

text \<open>
  The workers are asynchronous functions on one thread: a worker runs without
  interruption from one \<open>await\<close> to the next. The only \<open>await\<close> of the loop is the one
  on \<open>processSinglePage\<close>, and a page task shares no data with the others, so the
  steps of the pool are: a worker starts and claims its first index; the task a worker
  waits for settles, and the worker stores the result and claims again, or stops. Which
  task settles next is the scheduler's choice: a schedule is the list of the workers
  resumed, in order.
\<close>

datatype worker = NotStarted | Busy nat | Finished | Rejected

record pool =
  currentIndex :: nat
  orderedPageDetails :: "PageDetails option list"
  workers :: "worker list"

text \<open>From the top of the loop to the \<open>await\<close>: claim the next index, or leave the loop.\<close>

definition claimNext :: "nat \<Rightarrow> nat \<Rightarrow> pool \<Rightarrow> pool" where
  "claimNext totalPages workerId s =
     (if currentIndex s < totalPages
      then s\<lparr>workers := (workers s)[workerId := Busy (currentIndex s)],
              currentIndex := currentIndex s + 1\<rparr>
      else s\<lparr>workers := (workers s)[workerId := Finished]\<rparr>)"

text \<open>
  The task of worker \<open>workerId\<close> settles. A fulfilled task's result is stored at the
  index the worker claimed, and the loop goes round; a rejected one rejects the worker's
  promise. Resuming a worker that waits for nothing does nothing.
\<close>

definition resume :: "(nat \<Rightarrow> error + PageDetails) \<Rightarrow> nat \<Rightarrow> pool \<Rightarrow> nat \<Rightarrow> pool" where
  "resume task totalPages s workerId =
     (if workerId < length (workers s) then
        (case workers s ! workerId of
           Busy pageIndexToProcess \<Rightarrow>
             (case task pageIndexToProcess of
                Inl e \<Rightarrow> s\<lparr>workers := (workers s)[workerId := Rejected]\<rparr>
              | Inr pageDetail \<Rightarrow>
                  claimNext totalPages workerId
                    (s\<lparr>orderedPageDetails :=
                         (orderedPageDetails s)[pageIndexToProcess := Some pageDetail]\<rparr>))
         | _ \<Rightarrow> s)
      else s)"

text \<open>
  \<open>Array.from({length: maxConcurrency}, async ...)\<close> starts the workers one after the
  other, each running to its first \<open>await\<close>.
\<close>

definition startWorkers :: "nat \<Rightarrow> nat \<Rightarrow> pool" where
  "startWorkers totalPages maxConcurrency =
     fold (claimNext totalPages) [0..<maxConcurrency]
       \<lparr>currentIndex = 0, orderedPageDetails = replicate totalPages None,
        workers = replicate maxConcurrency NotStarted\<rparr>"

definition runPool :: "(nat \<Rightarrow> error + PageDetails) \<Rightarrow> nat \<Rightarrow> nat \<Rightarrow> nat list \<Rightarrow> pool" where
  "runPool task totalPages maxConcurrency schedule =
     foldl (resume task totalPages) (startWorkers totalPages maxConcurrency) schedule"

text \<open>
  \<open>await Promise.all(workerPromises)\<close>: rejected as soon as one worker is rejected,
  fulfilled when every worker has left its loop, pending otherwise (\<open>None\<close>). The array
  returned may have holes, hence the options.
\<close>

definition promiseAll :: "pool \<Rightarrow> (error + PageDetails option list) option" where
  "promiseAll s =
     (if Rejected \<in> set (workers s) then Some (Inl PoolRejected)
      else if list_all (\<lambda>w. w = Finished) (workers s) then Some (Inr (orderedPageDetails s))
      else None)"

definition buildPageDetailsParallel ::
  "(nat \<Rightarrow> page_env) \<Rightarrow> SidebarItem list \<Rightarrow> nat \<Rightarrow> nat list \<Rightarrow> (error + PageDetails option list) option" where
  "buildPageDetailsParallel browser sidebarItems maxConcurrency schedule =
     (let pagesToProcess = extractPages sidebarItems [];
          totalPages = length pagesToProcess
      in promiseAll
           (runPool (\<lambda>i. snd (processSinglePage (browser i) (pagesToProcess ! i)))
              totalPages maxConcurrency schedule))"


text \<open>
  The invariant of the pool: the output array keeps its length, the cursor stays within
  it, a filled slot holds the result of the task of its own index, every claimed index
  is filled or in flight unless a worker was rejected, a worker only leaves its loop
  once every index is claimed, and an index in flight is within the array.
\<close>

definition poolInv :: "(nat \<Rightarrow> error + PageDetails) \<Rightarrow> nat \<Rightarrow> pool \<Rightarrow> bool" where
  "poolInv task totalPages s =
     (length (orderedPageDetails s) = totalPages \<and> currentIndex s \<le> totalPages
      \<and> (\<forall>i<totalPages. orderedPageDetails s ! i = None
             \<or> (\<exists>d. task i = Inr d \<and> orderedPageDetails s ! i = Some d))
      \<and> (\<forall>i<currentIndex s. orderedPageDetails s ! i \<noteq> None
             \<or> Busy i \<in> set (workers s) \<or> Rejected \<in> set (workers s))
      \<and> (Finished \<in> set (workers s) \<longrightarrow> currentIndex s = totalPages)
      \<and> (\<forall>i. Busy i \<in> set (workers s) \<longrightarrow> i < totalPages))"

definition isBusy :: "worker \<Rightarrow> bool" where
  "isBusy w = (case w of Busy i \<Rightarrow> True | _ \<Rightarrow> False)"

text \<open>What is left to do: the indices not yet claimed and the tasks in flight.\<close>

definition remainingWork :: "nat \<Rightarrow> pool \<Rightarrow> nat" where
  "remainingWork totalPages s =
     (totalPages - currentIndex s) + length (filter isBusy (workers s))"


text \<open>
  Two readings of the \<open>try\<close> block used in the statements below: whether it raised, and
  the markup that ends in the result (empty when it raised, as the \<open>catch\<close> has it).
\<close>

definition harvestFails :: "page_env \<Rightarrow> SidebarItem \<Rightarrow> bool" where
  "harvestFails env sidebarItem = isl (snd (harvestSteps env sidebarItem))"

definition harvestedHtml :: "page_env \<Rightarrow> SidebarItem \<Rightarrow> string" where
  "harvestedHtml env sidebarItem =
     (case snd (harvestSteps env sidebarItem) of Inr html \<Rightarrow> html | Inl e \<Rightarrow> [])"

section \<open>Table of contents and cover (generateTocHtml, renderTocItems, generateCoverHtml)\<close>








section \<open>Document assembler (stage 3 of convertDocusaurusPageToPdf)\<close>

text \<open>Truthiness of an optional string: defined and not empty.\<close>

definition truthy :: "string option \<Rightarrow> bool" where
  "truthy x = (case x of None \<Rightarrow> False | Some v \<Rightarrow> v \<noteq> [])"











section \<open>Process exit (main, convertDocusaurusPageToPdf)\<close>

text \<open>
  What decides the exit code. Of the command line, the two required options; of the
  environment, whether the output directory exists or can be made, whether the browser
  launches, whether every later call of the conversion's \<open>try\<close> block resolves (a page
  that fails to harvest does not count: \<open>processSinglePage\<close> catches it), and whether
  the browser closes.
\<close>

record cli_options =
  opt_docsUrl :: "string option"
  opt_pdfPath :: "string option"

record run_env =
  outputDir_exists :: bool
  mkdirSync_ok :: bool
  launchBrowser_ok :: bool
  conversion_ok :: bool
  browserClose_ok :: bool

datatype log_line =
  LogConversionError | LogPdfGenerated | LogBrowserClosed | LogAppEndSuccess | LogAppError

text \<open>
  \<open>convertDocusaurusPageToPdf\<close>: the \<open>catch\<close> logs whatever the \<open>try\<close> block raised
  and does not raise again; the \<open>finally\<close> closes the browser when one was launched.
  Only a rejected \<open>browser.close()\<close> leaves the function by an exception.
\<close>

definition convertDocusaurusPageToPdf :: "run_env \<Rightarrow> log_line list \<times> (error + unit)" where
  "convertDocusaurusPageToPdf env =
     (if \<not> launchBrowser_ok env then ([LogConversionError], Inr ())
      else
        (let logs = (if conversion_ok env then [LogPdfGenerated] else [LogConversionError])
         in if browserClose_ok env then (logs @ [LogBrowserClosed], Inr ())
            else (logs, Inl ClosePageError)))"

text \<open>
  \<open>main\<close>: \<open>program.error\<close> of the command-line library prints the message and ends the
  process with code 1; an exception caught by \<open>main\<close> ends it with \<open>process.exit(1)\<close>;
  otherwise \<open>main\<close> returns and the process ends with code 0.
\<close>

definition main :: "cli_options \<Rightarrow> run_env \<Rightarrow> log_line list \<times> nat" where
  "main options env =
     (if \<not> truthy (opt_docsUrl options) then ([], 1)
      else if \<not> truthy (opt_pdfPath options) then ([], 1)
      else if \<not> outputDir_exists env \<and> \<not> mkdirSync_ok env then ([LogAppError], 1)
      else
        (case convertDocusaurusPageToPdf env of
           (logs, Inl e) \<Rightarrow> (logs @ [LogAppError], 1)
         | (logs, Inr u) \<Rightarrow> (logs @ [LogAppEndSuccess], 0)))"

section \<open>Example data\<close>

text \<open>The tree of the specification's end-to-end scenario, and a tree with placeholders.\<close>

definition scenarioTree :: "SidebarItem list" where
  "scenarioTree =
     [SidebarItem ''Intro'' ''a'' ''/docs/intro'' ''https://x/docs/intro'' [],
      SidebarItem ''Guides'' ''b'' [] ''#''
        [SidebarItem ''Setup'' ''c'' ''/docs/setup'' ''https://x/docs/setup'' []]]"

definition mixedTree :: "SidebarItem list" where
  "mixedTree =
     [SidebarItem ''Intro'' ''a'' ''/docs/intro'' ''https://x/docs/intro'' [],
      SidebarItem ''Guides'' ''b'' ''/docs/guides'' ''https://x/docs/guides''
        [SidebarItem ''Setup'' ''c'' ''/docs/setup'' ''https://x/docs/setup'' [],
         SidebarItem ''Soon'' ''d'' ''#'' ''https://x/docs/guides/#'' [],
         SidebarItem ''Later'' ''e'' ''#'' ''#'' [],
         SidebarItem ''Nowhere'' ''f'' [] [] []],
      SidebarItem ''Api'' ''g'' ''/docs/api'' ''https://x/docs/api'' []]"

definition examplePage :: "string \<Rightarrow> document" where
  "examplePage body =
     [\<lparr>el_tag = ''nav'', el_id = ''menu'', el_pageBreakAfter = [], el_inner = ''menu'',
       el_selectors = [''nav'']\<rparr>,
      \<lparr>el_tag = ''div'', el_id = [], el_pageBreakAfter = [], el_inner = body,
       el_selectors = [contentSelector]\<rparr>]"

definition goodPage :: "string \<Rightarrow> page_env" where
  "goodPage body =
     \<lparr>newPage_ok = True, goto_result = Some (examplePage body), click_effect = (\<lambda>d. d),
      close_ok = True\<rparr>"

definition timedOutPage :: page_env where
  "timedOutPage =
     \<lparr>newPage_ok = True, goto_result = None, click_effect = (\<lambda>d. d), close_ok = True\<rparr>"


definition goodBrowser :: "nat \<Rightarrow> page_env" where
  "goodBrowser i = (if i = 0 then goodPage ''intro'' else goodPage ''setup'')"



text \<open>A sidebar with an entry that has no link above an entry that has one.\<close>

definition exampleLink :: "string \<Rightarrow> string \<Rightarrow> anchor" where
  "exampleLink t h = \<lparr>a_textContent = Some t, a_hrefAttribute = Some h, a_href = ''https://x'' @ h\<rparr>"

definition exampleSidebar :: "li list" where
  "exampleSidebar =
     [Li (Some (exampleLink ''Intro'' ''/docs/intro'')) None,
      Li None (Some [Li (Some (exampleLink ''Hidden'' ''/docs/hidden'')) None]),
      Li (Some (exampleLink ''Guides'' ''/docs/guides''))
         (Some [Li (Some (exampleLink '' Setup '' ''/docs/setup'')) None])]"

text \<open>Templates, pages and a run of the command-line entry point.\<close>

definition exampleOptions :: cli_options where
  "exampleOptions = \<lparr>opt_docsUrl = Some ''https://x/docs'', opt_pdfPath = Some ''out.pdf''\<rparr>"

definition launchFailure :: run_env where
  "launchFailure =
     \<lparr>outputDir_exists = True, mkdirSync_ok = True, launchBrowser_ok = False,
      conversion_ok = True, browserClose_ok = True\<rparr>"





section \<open>Properties\<close>

subsection \<open>Tree flattener\<close>

lemma extractPages_acc:
  "extractPages items acc = acc @ filter isLeafPage (preorder items)"
proof (induction items acc rule: extractPages.induct)
  case (1 flattenedList)
  show ?case by simp
next
  case (2 t i p u cs items flattenedList)
  note ih_children = "2.IH"(1) [OF refl]
  note ih_rest = "2.IH"(2) [OF refl refl]
  show ?case
  proof (cases cs)
    case Nil
    with ih_rest show ?thesis by (auto simp: isLeafPage_def split: if_splits)
  next
    case (Cons c cs')
    with ih_children ih_rest show ?thesis by (auto simp: isLeafPage_def split: if_splits)
  qed
qed

text \<open>
  Claim C3. For every navigation tree, the flattened list is exactly the sublist of the
  pre-order traversal made of the nodes with no children and a url that is non-empty, not
  \<open>#\<close> and not ending in \<open>/#\<close>, in document order; in particular no node with children
  is emitted, while its descendants are still visited.
\<close>

theorem extractPages_leaf_selection:
  "extractPages items [] = filter isLeafPage (preorder items)
   \<and> list_all (\<lambda>x. item_children x = []) (extractPages items [])"
proof -
  have a: "extractPages items [] = filter isLeafPage (preorder items)"
    using extractPages_acc [of items "[]"] by simp
  have "list_all (\<lambda>x. item_children x = []) (filter isLeafPage (preorder items))"
    by (simp add: list_all_iff isLeafPage_def)
  with a show ?thesis by simp
qed

theorem extractPages_leaf_selection_witness:
  "extractPages mixedTree [] = filter isLeafPage (preorder mixedTree)
   \<and> extractPages mixedTree [] =
       [SidebarItem ''Intro'' ''a'' ''/docs/intro'' ''https://x/docs/intro'' [],
        SidebarItem ''Setup'' ''c'' ''/docs/setup'' ''https://x/docs/setup'' [],
        SidebarItem ''Api'' ''g'' ''/docs/api'' ''https://x/docs/api'' []]"
proof -
  have "extractPages mixedTree [] =
       [SidebarItem ''Intro'' ''a'' ''/docs/intro'' ''https://x/docs/intro'' [],
        SidebarItem ''Setup'' ''c'' ''/docs/setup'' ''https://x/docs/setup'' [],
        SidebarItem ''Api'' ''g'' ''/docs/api'' ''https://x/docs/api'' []]"
    by (simp add: mixedTree_def endsWith_def)
  with extractPages_leaf_selection [of mixedTree] show ?thesis by simp
qed

subsection \<open>Worker pool: the invariant and progress\<close>

lemma set_update_keep:
  "y \<in> set xs \<Longrightarrow> y \<noteq> xs ! w \<Longrightarrow> y \<in> set (xs[w := x])"
  by (metis in_set_conv_nth length_list_update nth_list_update_neq)

lemma set_update_cases:
  "y \<in> set (xs[w := x]) \<Longrightarrow> y = x \<or> y \<in> set xs"
  using set_update_subset_insert [of xs w x] by auto

lemma claimNext_inv:
  assumes inv: "poolInv task N s" and w: "w < length (workers s)"
    and filled: "\<And>i. workers s ! w = Busy i \<Longrightarrow> orderedPageDetails s ! i \<noteq> None"
    and nrej: "workers s ! w \<noteq> Rejected"
  shows "poolInv task N (claimNext N w s)"
proof (cases "currentIndex s < N")
  case True
  let ?ws = "(workers s)[w := Busy (currentIndex s)]"
  have cov: "orderedPageDetails s ! i \<noteq> None \<or> Busy i \<in> set ?ws \<or> Rejected \<in> set ?ws"
    if "i < currentIndex s + 1" for i
  proof (cases "i = currentIndex s")
    case True
    then show ?thesis using w by (simp add: set_update_memI)
  next
    case False
    with that have "i < currentIndex s" by simp
    with inv consider "orderedPageDetails s ! i \<noteq> None" | "Busy i \<in> set (workers s)"
      | "Rejected \<in> set (workers s)"
      unfolding poolInv_def by blast
    then show ?thesis
    proof cases
      case 1 then show ?thesis by simp
    next
      case 2
      show ?thesis
      proof (cases "workers s ! w = Busy i")
        case True
        then show ?thesis using filled by simp
      next
        case False
        with 2 have "Busy i \<in> set ?ws" by (metis set_update_keep)
        then show ?thesis by simp
      qed
    next
      case 3
      with nrej have "Rejected \<in> set ?ws" by (metis set_update_keep)
      then show ?thesis by simp
    qed
  qed
  have fin: "Finished \<notin> set ?ws"
  proof
    assume "Finished \<in> set ?ws"
    then have "Finished \<in> set (workers s)" using set_update_cases by fastforce
    with inv True show False unfolding poolInv_def by simp
  qed
  have busy: "i < N" if "Busy i \<in> set ?ws" for i
  proof -
    from that have "Busy i = Busy (currentIndex s) \<or> Busy i \<in> set (workers s)"
      by (rule set_update_cases)
    with inv True show ?thesis unfolding poolInv_def by auto
  qed
  from inv have base: "length (orderedPageDetails s) = N"
    "\<forall>i<N. orderedPageDetails s ! i = None
       \<or> (\<exists>d. task i = Inr d \<and> orderedPageDetails s ! i = Some d)"
    unfolding poolInv_def by simp_all
  show ?thesis
    unfolding poolInv_def claimNext_def using True base cov fin busy by simp
next
  case False
  let ?ws = "(workers s)[w := Finished]"
  from inv have cur: "currentIndex s = N" using False unfolding poolInv_def by simp
  have cov: "orderedPageDetails s ! i \<noteq> None \<or> Busy i \<in> set ?ws \<or> Rejected \<in> set ?ws"
    if "i < currentIndex s" for i
  proof -
    from inv that consider "orderedPageDetails s ! i \<noteq> None" | "Busy i \<in> set (workers s)"
      | "Rejected \<in> set (workers s)"
      unfolding poolInv_def by blast
    then show ?thesis
    proof cases
      case 1 then show ?thesis by simp
    next
      case 2
      show ?thesis
      proof (cases "workers s ! w = Busy i")
        case True
        then show ?thesis using filled by simp
      next
        case False
        with 2 have "Busy i \<in> set ?ws" by (metis set_update_keep)
        then show ?thesis by simp
      qed
    next
      case 3
      with nrej have "Rejected \<in> set ?ws" by (metis set_update_keep)
      then show ?thesis by simp
    qed
  qed
  have busy: "i < N" if "Busy i \<in> set ?ws" for i
  proof -
    from that have "Busy i = Finished \<or> Busy i \<in> set (workers s)"
      by (rule set_update_cases)
    with inv show ?thesis unfolding poolInv_def by auto
  qed
  from inv have base: "length (orderedPageDetails s) = N"
    "\<forall>i<N. orderedPageDetails s ! i = None
       \<or> (\<exists>d. task i = Inr d \<and> orderedPageDetails s ! i = Some d)"
    unfolding poolInv_def by simp_all
  show ?thesis
    unfolding poolInv_def claimNext_def using False cur base cov busy by simp
qed

lemma store_inv:
  assumes inv: "poolInv task N s" and i: "i < N" and t: "task i = Inr d"
  shows "poolInv task N (s\<lparr>orderedPageDetails := (orderedPageDetails s)[i := Some d]\<rparr>)"
proof -
  from inv have len: "length (orderedPageDetails s) = N" unfolding poolInv_def by simp
  have nth: "(orderedPageDetails s)[i := Some d] ! j = (if j = i then Some d else orderedPageDetails s ! j)"
    if "j < N" for j
    using that len i by (simp add: nth_list_update)
  show ?thesis
    using inv nth t unfolding poolInv_def by auto
qed

lemma resume_inv:
  assumes inv: "poolInv task N s"
  shows "poolInv task N (resume task N s w)"
proof (cases "w < length (workers s)")
  case False
  then show ?thesis using inv by (simp add: resume_def)
next
  case w: True
  show ?thesis
  proof (cases "workers s ! w")
    case (Busy i)
    with w have mem: "Busy i \<in> set (workers s)" by (metis nth_mem)
    with inv have i: "i < N" unfolding poolInv_def by simp
    show ?thesis
    proof (cases "task i")
      case (Inl e)
      let ?ws = "(workers s)[w := Rejected]"
      have rej: "Rejected \<in> set ?ws" using w by (simp add: set_update_memI)
      have old: "x \<in> set (workers s)" if "x \<in> set ?ws" "x \<noteq> Rejected" for x
        using that set_update_cases by fastforce
      have "poolInv task N (s\<lparr>workers := ?ws\<rparr>)"
        using inv rej old unfolding poolInv_def by auto
      with w Busy Inl show ?thesis by (simp add: resume_def)
    next
      case (Inr d)
      let ?s1 = "s\<lparr>orderedPageDetails := (orderedPageDetails s)[i := Some d]\<rparr>"
      have inv1: "poolInv task N ?s1" using inv i Inr by (rule store_inv)
      from inv have len: "length (orderedPageDetails s) = N" unfolding poolInv_def by simp
      have "poolInv task N (claimNext N w ?s1)"
      proof (rule claimNext_inv [OF inv1])
        show "w < length (workers ?s1)" using w by simp
        show "orderedPageDetails ?s1 ! j \<noteq> None" if "workers ?s1 ! w = Busy j" for j
          using that Busy i len by simp
        show "workers ?s1 ! w \<noteq> Rejected" using Busy by simp
      qed
      with w Busy Inr show ?thesis by (simp add: resume_def)
    qed
  qed (use inv w in \<open>simp_all add: resume_def\<close>)
qed

lemma foldl_resume_inv:
  "poolInv task N s \<Longrightarrow> poolInv task N (foldl (resume task N) s schedule)"
  by (induction schedule arbitrary: s) (simp_all add: resume_inv)

lemma claimNext_length [simp]: "length (workers (claimNext N w s)) = length (workers s)"
  by (simp add: claimNext_def)

lemma startWorkers_prefix:
  "k \<le> W \<Longrightarrow>
   (let s = fold (claimNext N) [0..<k]
              \<lparr>currentIndex = 0, orderedPageDetails = replicate N None,
               workers = replicate W NotStarted\<rparr>
    in poolInv task N s \<and> length (workers s) = W
       \<and> (\<forall>w<W. (w < k \<longrightarrow> isBusy (workers s ! w) \<or> workers s ! w = Finished)
                \<and> (k \<le> w \<longrightarrow> workers s ! w = NotStarted)))"
proof (induction k)
  case 0
  show ?case by (simp add: poolInv_def)
next
  case (Suc k)
  define s where "s = fold (claimNext N) [0..<k]
              \<lparr>currentIndex = 0, orderedPageDetails = replicate N None,
               workers = replicate W NotStarted\<rparr>"
  from Suc have ih: "poolInv task N s" "length (workers s) = W"
    "\<forall>w<W. (w < k \<longrightarrow> isBusy (workers s ! w) \<or> workers s ! w = Finished)
                \<and> (k \<le> w \<longrightarrow> workers s ! w = NotStarted)"
    by (simp_all add: s_def Let_def)
  from Suc.prems have k: "k < W" by simp
  with ih have ns: "workers s ! k = NotStarted" by simp
  have inv': "poolInv task N (claimNext N k s)"
    by (rule claimNext_inv [OF ih(1)]) (use k ih(2) ns in simp_all)
  have st: "(w < Suc k \<longrightarrow> isBusy (workers (claimNext N k s) ! w) \<or> workers (claimNext N k s) ! w = Finished)
                \<and> (Suc k \<le> w \<longrightarrow> workers (claimNext N k s) ! w = NotStarted)" if "w < W" for w
    using that ih(2,3) k by (auto simp: claimNext_def nth_list_update isBusy_def less_Suc_eq)
  have "fold (claimNext N) [0..<Suc k]
              \<lparr>currentIndex = 0, orderedPageDetails = replicate N None,
               workers = replicate W NotStarted\<rparr> = claimNext N k s"
    by (simp add: s_def)
  then show ?case using inv' st ih(2) by (simp add: Let_def)
qed

lemma startWorkers_inv:
  "poolInv task N (startWorkers N W)"
  "length (workers (startWorkers N W)) = W"
  "NotStarted \<notin> set (workers (startWorkers N W))"
proof -
  note p = startWorkers_prefix [of W W N task, simplified Let_def, folded startWorkers_def]
  from p show "poolInv task N (startWorkers N W)" by simp
  from p show len: "length (workers (startWorkers N W)) = W" by simp
  from p have "\<forall>w<W. workers (startWorkers N W) ! w \<noteq> NotStarted"
    by (auto simp: isBusy_def)
  with len show "NotStarted \<notin> set (workers (startWorkers N W))"
    by (auto simp: in_set_conv_nth)
qed

lemma runPool_inv: "poolInv task N (runPool task N W schedule)"
  unfolding runPool_def by (rule foldl_resume_inv) (rule startWorkers_inv)

lemma resume_length [simp]: "length (workers (resume task N s w)) = length (workers s)"
  by (auto simp: resume_def split: worker.splits sum.splits)

lemma runPool_length: "length (workers (runPool task N W schedule)) = W"
proof -
  have "length (workers (foldl (resume task N) s schedule)) = length (workers s)" for s
    by (induction schedule arbitrary: s) simp_all
  then show ?thesis by (simp add: runPool_def startWorkers_inv)
qed

lemma completed_slots:
  assumes inv: "poolInv task N s" and ne: "workers s \<noteq> []"
    and fin: "list_all (\<lambda>w. w = Finished) (workers s)" and i: "i < N"
  shows "\<exists>d. task i = Inr d \<and> orderedPageDetails s ! i = Some d"
proof -
  from ne fin have "Finished \<in> set (workers s)"
    by (cases "workers s") simp_all
  with inv have cur: "currentIndex s = N" unfolding poolInv_def by simp
  from fin have "Busy i \<notin> set (workers s)" "Rejected \<notin> set (workers s)"
    by (auto simp: list_all_iff)
  with inv i cur have "orderedPageDetails s ! i \<noteq> None" unfolding poolInv_def by auto
  with inv i show ?thesis unfolding poolInv_def by auto
qed

lemma busy_count_update:
  assumes "w < length ws" and "isBusy (ws ! w)"
  shows "length (filter isBusy (ws[w := x])) + 1
         = length (filter isBusy ws) + (if isBusy x then 1 else 0)"
proof -
  have a: "ws = take w ws @ ws ! w # drop (Suc w) ws"
    using assms(1) by (rule id_take_nth_drop)
  have b: "ws[w := x] = take w ws @ x # drop (Suc w) ws"
    using assms(1) by (rule upd_conv_take_nth_drop)
  have "length (filter isBusy ws)
        = length (filter isBusy (take w ws)) + 1 + length (filter isBusy (drop (Suc w) ws))"
    by (subst a) (simp add: assms(2))
  moreover have "length (filter isBusy (ws[w := x]))
        = length (filter isBusy (take w ws)) + (if isBusy x then 1 else 0)
          + length (filter isBusy (drop (Suc w) ws))"
    by (subst b) simp
  ultimately show ?thesis by simp
qed

lemma resume_decreases:
  assumes w: "w < length (workers s)" and b: "isBusy (workers s ! w)"
  shows "remainingWork N (resume task N s w) < remainingWork N s"
proof -
  from b obtain i where i: "workers s ! w = Busy i"
    by (cases "workers s ! w") (simp_all add: isBusy_def)
  note c = busy_count_update [OF w b]
  show ?thesis
  proof (cases "task i")
    case (Inl e)
    with w i c [of Rejected] show ?thesis
      by (simp add: resume_def remainingWork_def isBusy_def)
  next
    case (Inr d)
    show ?thesis
    proof (cases "currentIndex s < N")
      case True
      with w i Inr c [of "Busy (currentIndex s)"] show ?thesis
        by (simp add: resume_def claimNext_def remainingWork_def isBusy_def)
    next
      case False
      with w i Inr c [of Finished] show ?thesis
        by (simp add: resume_def claimNext_def remainingWork_def isBusy_def)
    qed
  qed
qed

lemma resume_started:
  assumes "NotStarted \<notin> set (workers s)"
  shows "NotStarted \<notin> set (workers (resume task N s w))"
proof
  assume a: "NotStarted \<in> set (workers (resume task N s w))"
  have "x = NotStarted \<or> NotStarted \<in> set (workers s)"
    if "NotStarted \<in> set ((workers s)[w := x])" for x
    using that set_update_cases by fastforce
  with a assms show False
    by (auto simp: resume_def claimNext_def split: if_splits worker.splits sum.splits)
qed

lemma can_complete:
  "NotStarted \<notin> set (workers s) \<Longrightarrow>
   \<exists>schedule. promiseAll (foldl (resume task N) s schedule) \<noteq> None"
proof (induction "remainingWork N s" arbitrary: s rule: less_induct)
  case less
  show ?case
  proof (cases "\<exists>w<length (workers s). isBusy (workers s ! w)")
    case True
    then obtain w where w: "w < length (workers s)" "isBusy (workers s ! w)" by blast
    have "\<exists>schedule. promiseAll (foldl (resume task N) (resume task N s w) schedule) \<noteq> None"
      using resume_decreases [OF w] resume_started [OF less.prems] by (rule less.hyps)
    then obtain schedule
      where "promiseAll (foldl (resume task N) (resume task N s w) schedule) \<noteq> None" ..
    then have "promiseAll (foldl (resume task N) s (w # schedule)) \<noteq> None" by simp
    then show ?thesis ..
  next
    case False
    have "x = Finished \<or> x = Rejected" if "x \<in> set (workers s)" for x
    proof (cases x)
      case NotStarted
      with that less.prems show ?thesis by simp
    next
      case (Busy i)
      with that False show ?thesis by (auto simp: in_set_conv_nth isBusy_def)
    qed simp_all
    then have "promiseAll s \<noteq> None"
      by (auto simp: promiseAll_def list_all_iff)
    then have "promiseAll (foldl (resume task N) s []) \<noteq> None" by simp
    then show ?thesis ..
  qed
qed

lemma runPool_append:
  "runPool task N W (schedule @ rest) = foldl (resume task N) (runPool task N W schedule) rest"
  by (simp add: runPool_def)

lemma runPool_started: "NotStarted \<notin> set (workers (runPool task N W schedule))"
proof -
  have "NotStarted \<notin> set (workers s) \<Longrightarrow> NotStarted \<notin> set (workers (foldl (resume task N) s schedule))" for s
    by (induction schedule arbitrary: s) (simp_all add: resume_started)
  then show ?thesis by (simp add: runPool_def startWorkers_inv)
qed

lemma runPool_can_complete:
  "\<exists>rest. promiseAll (runPool task N W (schedule @ rest)) \<noteq> None"
  using can_complete [OF runPool_started] by (simp add: runPool_append)




lemma processSinglePage_result:
  "snd (processSinglePage env item) =
     (if \<not> newPage_ok env then Inl NewPageError
      else if close_ok env then Inr (pageDetailsOf item (harvestedHtml env item))
      else Inl ClosePageError)"
  by (auto simp: processSinglePage_def harvestedHtml_def Let_def split: prod.splits sum.splits)

lemma harvestSteps_calls:
  "Acquired \<notin> set (fst (harvestSteps env item))"
  "ClosePage \<notin> set (fst (harvestSteps env item))"
  by (auto simp: harvestSteps_def Let_def split: option.splits sum.splits prod.splits)

lemma pool_output:
  assumes W: "1 \<le> W"
    and res: "promiseAll (runPool task N W schedule) = Some (Inr out)"
  shows "length out = N \<and> (\<forall>i<N. \<exists>d. task i = Inr d \<and> out ! i = Some d)"
proof -
  let ?s = "runPool task N W schedule"
  from res have fin: "list_all (\<lambda>w. w = Finished) (workers ?s)"
    and out: "out = orderedPageDetails ?s"
    by (auto simp: promiseAll_def split: if_splits)
  have inv: "poolInv task N ?s" by (rule runPool_inv)
  have "length (workers ?s) = W" by (rule runPool_length)
  with W have ne: "workers ?s \<noteq> []" by auto
  from inv have "length out = N" unfolding out poolInv_def by simp
  moreover have "\<exists>d. task i = Inr d \<and> out ! i = Some d" if "i < N" for i
    unfolding out using inv ne fin that by (rule completed_slots)
  ultimately show ?thesis by simp
qed


lemma scenario_pages:
  "extractPages scenarioTree [] =
     [SidebarItem ''Intro'' ''a'' ''/docs/intro'' ''https://x/docs/intro'' [],
      SidebarItem ''Setup'' ''c'' ''/docs/setup'' ''https://x/docs/setup'' []]"
  by (simp add: scenarioTree_def endsWith_def)

lemma scenario_run:
  assumes "newPage_ok (browser 0)" "close_ok (browser 0)" "newPage_ok (browser 1)" "close_ok (browser 1)"
  shows "buildPageDetailsParallel browser scenarioTree 2 [1, 0] =
     Some (Inr [Some (pageDetailsOf (SidebarItem ''Intro'' ''a'' ''/docs/intro'' ''https://x/docs/intro'' []) (harvestedHtml (browser 0) (SidebarItem ''Intro'' ''a'' ''/docs/intro'' ''https://x/docs/intro'' []))),
                Some (pageDetailsOf (SidebarItem ''Setup'' ''c'' ''/docs/setup'' ''https://x/docs/setup'' []) (harvestedHtml (browser 1) (SidebarItem ''Setup'' ''c'' ''/docs/setup'' ''https://x/docs/setup'' [])))])"
  using assms
  by (simp add: buildPageDetailsParallel_def scenario_pages runPool_def startWorkers_def
      claimNext_def resume_def promiseAll_def processSinglePage_result
      upt_rec [of 0] upt_rec [of 1] numeral_2_eq_2)

lemma good_pages_ok:
  "newPage_ok (goodPage b)" "close_ok (goodPage b)" "newPage_ok timedOutPage" "close_ok timedOutPage"
  by (simp_all add: goodPage_def timedOutPage_def)

text \<open>
  Claim C1. For every navigation tree and every number of workers \<open>W\<close> with
  \<open>1 \<le> W \<le> N\<close>, whatever the order in which the page tasks settle (the schedule), a pool
  that returns an array returns the array whose slot \<open>i\<close> holds the result for leaf page
  \<open>i\<close> of the flattened list, for every \<open>i < N\<close>; and every partial run can be continued
  until \<open>Promise.all\<close> settles.
\<close>

theorem buildPageDetailsParallel_order:
  assumes "1 \<le> W" and "W \<le> length (extractPages sidebarItems [])"
  shows "(\<forall>schedule. \<exists>rest. buildPageDetailsParallel browser sidebarItems W (schedule @ rest) \<noteq> None)
    \<and> (\<forall>schedule out.
          buildPageDetailsParallel browser sidebarItems W schedule = Some (Inr out) \<longrightarrow>
          out = map (\<lambda>i. Some (pageDetailsOf (extractPages sidebarItems [] ! i)
                                  (harvestedHtml (browser i) (extractPages sidebarItems [] ! i))))
                  [0..<length (extractPages sidebarItems [])])"
proof (intro conjI allI impI)
  fix schedule
  show "\<exists>rest. buildPageDetailsParallel browser sidebarItems W (schedule @ rest) \<noteq> None"
    unfolding buildPageDetailsParallel_def Let_def by (rule runPool_can_complete)
next
  fix schedule out
  let ?pages = "extractPages sidebarItems []"
  let ?task = "\<lambda>i. snd (processSinglePage (browser i) (?pages ! i))"
  assume "buildPageDetailsParallel browser sidebarItems W schedule = Some (Inr out)"
  then have "promiseAll (runPool ?task (length ?pages) W schedule) = Some (Inr out)"
    by (simp add: buildPageDetailsParallel_def Let_def)
  with assms(1) have len: "length out = length ?pages"
    and slots: "\<forall>i<length ?pages. \<exists>d. ?task i = Inr d \<and> out ! i = Some d"
    using pool_output by blast+
  have "out ! i = Some (pageDetailsOf (?pages ! i) (harvestedHtml (browser i) (?pages ! i)))"
    if "i < length ?pages" for i
  proof -
    from slots that obtain d where d: "?task i = Inr d" "out ! i = Some d" by blast
    from d(1) have "d = pageDetailsOf (?pages ! i) (harvestedHtml (browser i) (?pages ! i))"
      by (simp add: processSinglePage_result split: if_splits)
    with d(2) show ?thesis by simp
  qed
  note nth = this
  show "out = map (\<lambda>i. Some (pageDetailsOf (?pages ! i) (harvestedHtml (browser i) (?pages ! i))))
                  [0..<length ?pages]"
  proof (rule nth_equalityI)
    show "length out = length (map (\<lambda>i. Some (pageDetailsOf (?pages ! i)
                 (harvestedHtml (browser i) (?pages ! i)))) [0..<length ?pages])"
      using len by simp
  next
    fix i assume "i < length out"
    with len have i: "i < length ?pages" by simp
    then show "out ! i = map (\<lambda>i. Some (pageDetailsOf (?pages ! i)
                 (harvestedHtml (browser i) (?pages ! i)))) [0..<length ?pages] ! i"
      using nth [OF i] by simp
  qed
qed

theorem buildPageDetailsParallel_order_witness:
  "(1::nat) \<le> 2 \<and> 2 \<le> length (extractPages scenarioTree [])
   \<and> (\<exists>rest. buildPageDetailsParallel goodBrowser scenarioTree 2 ([1] @ rest) \<noteq> None)
   \<and> buildPageDetailsParallel goodBrowser scenarioTree 2 [1, 0] =
       Some (Inr (map (\<lambda>i. Some (pageDetailsOf (extractPages scenarioTree [] ! i)
                                  (harvestedHtml (goodBrowser i) (extractPages scenarioTree [] ! i))))
                  [0..<length (extractPages scenarioTree [])]))"
proof -
  have h1: "(1::nat) \<le> 2" by simp
  have h2: "2 \<le> length (extractPages scenarioTree [])" by (simp add: scenario_pages)
  note t = buildPageDetailsParallel_order [OF h1 h2, of goodBrowser]
  from t have a: "\<exists>rest. buildPageDetailsParallel goodBrowser scenarioTree 2 ([1] @ rest) \<noteq> None"
    by blast
  have "\<exists>out. buildPageDetailsParallel goodBrowser scenarioTree 2 [1, 0] = Some (Inr out)"
    by (rule exI, rule scenario_run) (simp_all add: goodBrowser_def good_pages_ok)
  then obtain out where o: "buildPageDetailsParallel goodBrowser scenarioTree 2 [1, 0] = Some (Inr out)" ..
  with t have "out = map (\<lambda>i. Some (pageDetailsOf (extractPages scenarioTree [] ! i)
                                  (harvestedHtml (goodBrowser i) (extractPages scenarioTree [] ! i))))
                  [0..<length (extractPages scenarioTree [])]"
    by blast
  with o h1 h2 a show ?thesis by simp
qed




subsection \<open>Content harvester\<close>

lemma findIndex_Some:
  "findIndex P xs = Some i \<Longrightarrow> i < length xs \<and> P (xs ! i) \<and> (\<forall>j<i. \<not> P (xs ! j))"
proof (induction xs arbitrary: i)
  case Nil
  then show ?case by simp
next
  case (Cons x xs)
  show ?case
  proof (cases "P x")
    case True
    with Cons.prems show ?thesis by simp
  next
    case False
    with Cons.prems obtain i' where i': "findIndex P xs = Some i'" "i = Suc i'"
      by auto
    from Cons.IH [OF i'(1)] False i'(2) show ?thesis
      by (auto simp: less_Suc_eq_0_disj)
  qed
qed

lemma findIndex_None: "findIndex P xs = None \<longleftrightarrow> (\<forall>x\<in>set xs. \<not> P x)"
  by (induction xs) simp_all

lemma stamped_found:
  assumes "updateElementId doc selector newId = Inr doc2"
  shows "querySelector doc2 (''#'' @ newId) \<noteq> None"
proof -
  from assms obtain i where i: "querySelector doc selector = Some i"
    and d: "doc2 = doc[i := (doc ! i)\<lparr>el_id := newId\<rparr>]"
    by (auto simp: updateElementId_def split: option.splits)
  from i have "i < length doc"
    using findIndex_Some [of "matchesSelector selector" doc i] by (simp add: querySelector_def)
  then have "(doc ! i)\<lparr>el_id := newId\<rparr> \<in> set doc2"
    unfolding d by (rule set_update_memI)
  moreover have "matchesSelector (''#'' @ newId) ((doc ! i)\<lparr>el_id := newId\<rparr>)"
    by (simp add: matchesSelector_def)
  ultimately show ?thesis
    by (auto simp: querySelector_def findIndex_None)
qed

text \<open>
  Claim C7. Every page task closes the page it created: \<open>page.close()\<close> is called as
  many times as a page was acquired, which is once when \<open>newPage\<close> resolved and never
  otherwise, and when a page was acquired the call to close it is the last thing the
  task does, whether the harvest succeeded or failed at any step.
\<close>

theorem processSinglePage_releases:
  "count_list (fst (processSinglePage env sidebarItem)) ClosePage
     = count_list (fst (processSinglePage env sidebarItem)) Acquired
   \<and> count_list (fst (processSinglePage env sidebarItem)) Acquired = (if newPage_ok env then 1 else 0)
   \<and> (newPage_ok env \<longrightarrow> hd (fst (processSinglePage env sidebarItem)) = Acquired
         \<and> last (fst (processSinglePage env sidebarItem)) = ClosePage)"
proof (cases "newPage_ok env")
  case False
  then show ?thesis by (simp add: processSinglePage_def)
next
  case True
  obtain calls outcome where h: "harvestSteps env sidebarItem = (calls, outcome)"
    by (cases "harvestSteps env sidebarItem")
  with harvestSteps_calls [of env sidebarItem]
  have no: "Acquired \<notin> set calls" "ClosePage \<notin> set calls" by simp_all
  then have z: "count_list calls Acquired = 0" "count_list calls ClosePage = 0"
    by (simp_all add: count_list_0_iff)
  show ?thesis
    using True h z by (cases outcome) (simp_all add: processSinglePage_def)
qed

theorem processSinglePage_releases_witness:
  "newPage_ok timedOutPage
   \<and> harvestFails timedOutPage (SidebarItem ''Intro'' ''a'' ''/docs/intro'' ''https://x/docs/intro'' [])
   \<and> fst (processSinglePage timedOutPage (SidebarItem ''Intro'' ''a'' ''/docs/intro'' ''https://x/docs/intro'' []))
       = [Acquired, Goto ''https://x/docs/intro'', LoggedError, ClosePage]
   \<and> count_list (fst (processSinglePage timedOutPage (SidebarItem ''Intro'' ''a'' ''/docs/intro'' ''https://x/docs/intro'' []))) ClosePage = 1
   \<and> last (fst (processSinglePage timedOutPage (SidebarItem ''Intro'' ''a'' ''/docs/intro'' ''https://x/docs/intro'' []))) = ClosePage"
proof -
  have n: "newPage_ok timedOutPage" by (rule good_pages_ok)
  have f: "harvestFails timedOutPage (SidebarItem ''Intro'' ''a'' ''/docs/intro'' ''https://x/docs/intro'' [])"
    by (simp add: harvestFails_def harvestSteps_def timedOutPage_def)
  have tr: "fst (processSinglePage timedOutPage (SidebarItem ''Intro'' ''a'' ''/docs/intro'' ''https://x/docs/intro'' []))
       = [Acquired, Goto ''https://x/docs/intro'', LoggedError, ClosePage]"
    by (simp add: processSinglePage_def harvestSteps_def timedOutPage_def)
  from processSinglePage_releases [of timedOutPage "SidebarItem ''Intro'' ''a'' ''/docs/intro'' ''https://x/docs/intro'' []"] n
  have "count_list (fst (processSinglePage timedOutPage (SidebarItem ''Intro'' ''a'' ''/docs/intro'' ''https://x/docs/intro'' []))) ClosePage = 1"
    and "last (fst (processSinglePage timedOutPage (SidebarItem ''Intro'' ''a'' ''/docs/intro'' ''https://x/docs/intro'' []))) = ClosePage"
    by simp_all
  with n f tr show ?thesis by blast
qed



subsection \<open>Link rewriter\<close>

lemma rewriteHref_map_of:
  "rewriteHref pathToAnchors linkPath =
     (case map_of pathToAnchors linkPath of None \<Rightarrow> linkPath | Some anchor \<Rightarrow> ''#'' @ anchor)"
  by (induction pathToAnchors) auto

text \<open>
  Counterexample for C4 as stated, in its last part: when a key of the map is itself \<open>#\<close>
  followed by an anchor of the map, the second run rewrites a link that the first run
  produced.
\<close>

theorem rewriteLinks_counterexample:
  "rewriteLinks [(''/docs/a'', ''x''), (''#x'', ''y'')] [''/docs/a''] = [''#x'']
   \<and> rewriteLinks [(''/docs/a'', ''x''), (''#x'', ''y'')]
        (rewriteLinks [(''/docs/a'', ''x''), (''#x'', ''y'')] [''/docs/a'']) = [''#y'']"
  by (simp add: rewriteLinks_def)

text \<open>
  Claim C4, amended. One run of the pass replaces the href of every link that is
  string-equal to a path of the map by \<open>#\<close> followed by the anchor of the first pair
  with that path, and leaves every other href as it is (a href that differs from a key
  by a trailing slash, or an external address, is not a key); and when no key of the
  map is \<open>#\<close> followed by an anchor of the map, a second run changes nothing.
\<close>

theorem rewriteLinks_once_and_twice:
  "rewriteLinks pathToAnchors links =
     map (\<lambda>href. case map_of pathToAnchors href of None \<Rightarrow> href | Some anchor \<Rightarrow> ''#'' @ anchor) links
   \<and> (\<forall>i<length links. links ! i \<notin> fst ` set pathToAnchors \<longrightarrow>
          rewriteLinks pathToAnchors links ! i = links ! i)
   \<and> ((\<forall>anchor \<in> snd ` set pathToAnchors. ''#'' @ anchor \<notin> fst ` set pathToAnchors) \<longrightarrow>
          rewriteLinks pathToAnchors (rewriteLinks pathToAnchors links) = rewriteLinks pathToAnchors links)"
proof (intro conjI allI impI)
  show a: "rewriteLinks pathToAnchors links =
     map (\<lambda>href. case map_of pathToAnchors href of None \<Rightarrow> href | Some anchor \<Rightarrow> ''#'' @ anchor) links"
    by (simp add: rewriteLinks_def rewriteHref_map_of)
next
  fix i assume "i < length links" "links ! i \<notin> fst ` set pathToAnchors"
  then show "rewriteLinks pathToAnchors links ! i = links ! i"
    by (simp add: rewriteLinks_def rewriteHref_map_of map_of_eq_None_iff [THEN iffD2])
next
  assume fresh: "\<forall>anchor \<in> snd ` set pathToAnchors. ''#'' @ anchor \<notin> fst ` set pathToAnchors"
  have "rewriteHref pathToAnchors (rewriteHref pathToAnchors href) = rewriteHref pathToAnchors href"
    for href
  proof (cases "map_of pathToAnchors href")
    case None
    then show ?thesis by (simp add: rewriteHref_map_of)
  next
    case (Some anchor)
    then have "(href, anchor) \<in> set pathToAnchors" by (rule map_of_SomeD)
    then have "anchor \<in> snd ` set pathToAnchors" by force
    with fresh have "''#'' @ anchor \<notin> fst ` set pathToAnchors" by blast
    then have "map_of pathToAnchors (''#'' @ anchor) = None"
      by (simp add: map_of_eq_None_iff)
    with Some show ?thesis by (simp add: rewriteHref_map_of)
  qed
  then show "rewriteLinks pathToAnchors (rewriteLinks pathToAnchors links) = rewriteLinks pathToAnchors links"
    by (simp add: rewriteLinks_def)
qed

theorem rewriteLinks_witness:
  "rewriteLinks [(''/docs/intro'', ''a''), (''/docs/setup'', ''c'')]
     [''/docs/setup'', ''/docs/setup/'', ''https://example.org/'', ''#c'']
     = [''#c'', ''/docs/setup/'', ''https://example.org/'', ''#c'']
   \<and> rewriteLinks [(''/docs/intro'', ''a''), (''/docs/setup'', ''c'')]
       (rewriteLinks [(''/docs/intro'', ''a''), (''/docs/setup'', ''c'')]
          [''/docs/setup'', ''/docs/setup/'', ''https://example.org/'', ''#c''])
     = rewriteLinks [(''/docs/intro'', ''a''), (''/docs/setup'', ''c'')]
          [''/docs/setup'', ''/docs/setup/'', ''https://example.org/'', ''#c'']"
proof -
  let ?m = "[(''/docs/intro'', ''a''), (''/docs/setup'', ''c'')]"
  let ?d = "[''/docs/setup'', ''/docs/setup/'', ''https://example.org/'', ''#c'']"
  have fresh: "\<forall>anchor \<in> snd ` set ?m. ''#'' @ anchor \<notin> fst ` set ?m" by simp
  note t = rewriteLinks_once_and_twice [of ?m ?d]
  have "rewriteLinks ?m ?d = [''#c'', ''/docs/setup/'', ''https://example.org/'', ''#c'']"
    by (simp add: rewriteLinks_def)
  moreover from t fresh have "rewriteLinks ?m (rewriteLinks ?m ?d) = rewriteLinks ?m ?d"
    by blast
  ultimately show ?thesis by simp
qed

subsection \<open>Identifier assigner and navigation extractor\<close>

lemma digitChar_isDigit: "isDigit (digitChar d)"
proof -
  have "d mod 10 < length ''0123456789''" by simp
  then have "''0123456789'' ! (d mod 10) \<in> set ''0123456789''" by (rule nth_mem)
  then show ?thesis by (simp only: isDigit_def digitChar_def)
qed

lemma toDecimal_digits: "list_all isDigit (toDecimal n)"
proof (induction n rule: toDecimal.induct)
  case (1 n)
  show ?case
  proof (cases "n < 10")
    case True
    then show ?thesis by (subst toDecimal.simps) (simp add: digitChar_isDigit)
  next
    case False
    with 1 show ?thesis by (subst toDecimal.simps) (simp add: digitChar_isDigit)
  qed
qed

lemma list_all_drop: "list_all P xs \<Longrightarrow> list_all P (drop k xs)"
  by (auto simp: list_all_iff dest: in_set_dropD)

lemma isBase36_safe: "isBase36 c \<Longrightarrow> isLetter c \<or> isDigit c"
  by (auto simp: isBase36_def isLetter_def isDigit_def)

lemma radix36_tail: "radix36Fraction r \<Longrightarrow> list_all isBase36 (drop 2 r)"
  by (auto simp: radix36Fraction_def)

lemma preorder_append: "preorder (xs @ ys) = preorder xs @ preorder ys"
  by (induction xs rule: preorder.induct) simp_all

lemma parseListItems_nodes:
  "map (\<lambda>item. (item_title item, item_path item, item_url item))
       (preorder (fst (parseListItems env lis acc k)))
   = map (\<lambda>item. (item_title item, item_path item, item_url item)) (preorder acc)
     @ map (\<lambda>a. (anchorTitle a, orEmpty (a_hrefAttribute a), a_href a)) (keptLinks lis)"
proof (induction env lis acc k rule: parseListItems.induct)
  case (4 env a subList lis sidebarItems k)
  obtain children k1 where c: "parseListItems env subList [] k = (children, k1)"
    by (cases "parseListItems env subList [] k")
  from "4.IH"(1) c
  have ch: "map (\<lambda>item. (item_title item, item_path item, item_url item)) (preorder children)
      = map (\<lambda>a. (anchorTitle a, orEmpty (a_hrefAttribute a), a_href a)) (keptLinks subList)"
    by simp
  from "4.IH"(2) [OF c [symmetric]] c ch show ?case
    by (simp add: preorder_append)
qed (simp_all add: preorder_append)

lemma parseListItems_ids:
  assumes "\<forall>item\<in>set (preorder acc). \<exists>j. item_id item = generateValidHtmlId (fst (env j)) (snd (env j))"
  shows "\<forall>item\<in>set (preorder (fst (parseListItems env lis acc k))).
           \<exists>j. item_id item = generateValidHtmlId (fst (env j)) (snd (env j))"
  using assms
proof (induction env lis acc k rule: parseListItems.induct)
  case (3 env a lis sidebarItems k)
  have "\<forall>item\<in>set (preorder (fst (parseListItems env lis
          (sidebarItems @ [SidebarItem (anchorTitle a) (generateValidHtmlId (fst (env k)) (snd (env k)))
              (orEmpty (a_hrefAttribute a)) (a_href a) []]) (Suc k)))).
           \<exists>j. item_id item = generateValidHtmlId (fst (env j)) (snd (env j))"
    by (rule "3.IH") (use "3.prems" in \<open>auto simp: preorder_append\<close>)
  then show ?case by simp
next
  case (4 env a subList lis sidebarItems k)
  obtain children k1 where c: "parseListItems env subList [] k = (children, k1)"
    by (cases "parseListItems env subList [] k")
  from "4.IH"(1) c
  have ch: "\<forall>item\<in>set (preorder children). \<exists>j. item_id item = generateValidHtmlId (fst (env j)) (snd (env j))"
    by simp
  have "\<forall>item\<in>set (preorder (fst (parseListItems env lis
          (sidebarItems @ [SidebarItem (anchorTitle a) (generateValidHtmlId (fst (env k1)) (snd (env k1)))
              (orEmpty (a_hrefAttribute a)) (a_href a) children]) (Suc k1)))).
           \<exists>j. item_id item = generateValidHtmlId (fst (env j)) (snd (env j))"
    by (rule "4.IH"(2) [OF c [symmetric]]) (use "4.prems" ch in \<open>auto simp: preorder_append\<close>)
  with c show ?case by simp
qed simp_all

lemma parseListItems_skip:
  "parseListItems env (pre @ Li None sub # post) acc k = parseListItems env (pre @ post) acc k"
proof (induction pre arbitrary: acc k)
  case Nil
  show ?case by simp
next
  case (Cons x pre)
  show ?case
  proof (cases x)
    case (Li a s)
    show ?thesis
    proof (cases a)
      case None
      with Li Cons show ?thesis by simp
    next
      case (Some l)
      with Li Cons show ?thesis by (cases s) (simp_all split: prod.splits)
    qed
  qed
qed

lemma distinct_prefixed:
  "distinct (map (\<lambda>x. p @ g x) xs) = distinct (map g xs)"
  by (induction xs) auto

lemma toDecimal_now: "toDecimal 1762128000123 = ''1762128000123''"
  by (simp add: toDecimal.simps digitChar_def)

lemma ex_id: "generateValidHtmlId 1762128000123 ''0.4fzyo82mvyr'' = ''id-280001234fzyo82mvyr''"
  by (simp add: generateValidHtmlId_def substring_def toDecimal_now)

text \<open>
  Counterexample for C6 as stated, in its uniqueness part: nothing in the generator tells two
  calls apart but the clock and the random source, so two calls that read the same
  millisecond and draw the same number return the same id.
\<close>

theorem generateValidHtmlId_counterexample:
  "radix36Fraction ''0.4fzyo82mvyr''
   \<and> \<not> distinct (map (\<lambda>(t, r). generateValidHtmlId t r)
          [(1762128000123, ''0.4fzyo82mvyr''), (1762128000123, ''0.4fzyo82mvyr'')])"
  by (simp add: radix36Fraction_def isBase36_def)

text \<open>
  Claim C6, amended. Every id is \<open>id-\<close> followed by the decimal digits of the clock
  reading after the fifth and by the base-36 digits of the random draw; it does not start
  with a digit and is anchor-safe; ids generated from a list of readings are pairwise
  distinct exactly when those suffixes are; and every id of an extracted tree is the
  generator's value at one of the readings, whatever the titles and paths.
\<close>

theorem generateValidHtmlId_shape:
  assumes "radix36Fraction randomText"
  shows "generateValidHtmlId now randomText
           = ''id-'' @ drop 5 (toDecimal now) @ drop 2 randomText
     \<and> list_all isDigit (drop 5 (toDecimal now))
     \<and> list_all isBase36 (drop 2 randomText)
     \<and> \<not> isDigit (hd (generateValidHtmlId now randomText))
     \<and> anchorSafe (generateValidHtmlId now randomText)
     \<and> (\<forall>readings.
           distinct (map (\<lambda>(t, r). generateValidHtmlId t r) readings)
           = distinct (map (\<lambda>(t, r). drop 5 (toDecimal t) @ drop 2 r) readings))
     \<and> (\<forall>env lis. \<forall>item\<in>set (preorder (extractDocusaurusSidebarItems env lis)).
           \<exists>j. item_id item = generateValidHtmlId (fst (env j)) (snd (env j)))"
proof -
  have shape: "generateValidHtmlId n r = ''id-'' @ drop 5 (toDecimal n) @ drop 2 r" for n r
    by (simp add: generateValidHtmlId_def substring_def)
  have d: "list_all isDigit (drop 5 (toDecimal now))"
    using toDecimal_digits by (rule list_all_drop)
  have r: "list_all isBase36 (drop 2 randomText)"
    using assms by (rule radix36_tail)
  have safe: "list_all (\<lambda>c. isLetter c \<or> isDigit c \<or> c \<in> set ''-_:.'')
               (drop 5 (toDecimal now) @ drop 2 randomText)"
    using d r isBase36_safe by (auto simp: list_all_iff)
  have a: "anchorSafe (generateValidHtmlId now randomText)"
    using safe by (simp add: shape anchorSafe_def isLetter_def)
  have h: "\<not> isDigit (hd (generateValidHtmlId now randomText))"
    by (simp add: shape isDigit_def)
  have k: "distinct (map (\<lambda>(t, r). generateValidHtmlId t r) readings)
           = distinct (map (\<lambda>(t, r). drop 5 (toDecimal t) @ drop 2 r) readings)" for readings
  proof -
    have "(\<lambda>(t, r). generateValidHtmlId t r)
          = (\<lambda>x. ''id-'' @ (case x of (t, r) \<Rightarrow> drop 5 (toDecimal t) @ drop 2 r))"
      by (auto simp: shape fun_eq_iff)
    then show ?thesis
      using distinct_prefixed [of "''id-''" "\<lambda>(t, r). drop 5 (toDecimal t) @ drop 2 r" readings]
      by simp
  qed
  have ids: "\<forall>item\<in>set (preorder (extractDocusaurusSidebarItems env lis)).
           \<exists>j. item_id item = generateValidHtmlId (fst (env j)) (snd (env j))" for env lis
    unfolding extractDocusaurusSidebarItems_def by (rule parseListItems_ids) simp
  from shape [of now randomText] d r h a k ids show ?thesis by blast
qed

theorem generateValidHtmlId_shape_witness:
  "radix36Fraction ''0.4fzyo82mvyr''
   \<and> generateValidHtmlId 1762128000123 ''0.4fzyo82mvyr'' = ''id-280001234fzyo82mvyr''
   \<and> anchorSafe ''id-280001234fzyo82mvyr''
   \<and> distinct (map (\<lambda>(t, r). generateValidHtmlId t r)
        [(1762128000123, ''0.4fzyo82mvyr''), (1762128000123, ''0.9k3''), (1762128000124, ''0.9k3'')])"
proof -
  have h: "radix36Fraction ''0.4fzyo82mvyr''"
    by (simp add: radix36Fraction_def isBase36_def)
  note t = generateValidHtmlId_shape [OF h, of 1762128000123]
  from t have "anchorSafe (generateValidHtmlId 1762128000123 ''0.4fzyo82mvyr'')" by blast
  then have a: "anchorSafe ''id-280001234fzyo82mvyr''" by (simp only: ex_id)
  have t4: "toDecimal 1762128000124 = ''1762128000124''"
    by (simp add: toDecimal.simps digitChar_def)
  have "distinct (map (\<lambda>(t, r). drop 5 (toDecimal t) @ drop 2 r)
        [(1762128000123, ''0.4fzyo82mvyr''), (1762128000123, ''0.9k3''), (1762128000124, ''0.9k3'')])"
    by (simp add: toDecimal_now t4)
  with t have "distinct (map (\<lambda>(t, r). generateValidHtmlId t r)
        [(1762128000123, ''0.4fzyo82mvyr''), (1762128000123, ''0.9k3''), (1762128000124, ''0.9k3'')])"
    by blast
  with h a ex_id show ?thesis by blast
qed

text \<open>
  Claim C10. A list entry with no link is skipped with everything below it: the result
  of \<open>parseListItems\<close> is the same as if the entry were not there, whatever its nested
  list holds; and the nodes of the extracted tree are, in document order, the links
  whose ancestors all have links.
\<close>

theorem parseListItems_skips_subtree:
  "parseListItems env (pre @ Li None sub # post) acc k = parseListItems env (pre @ post) acc k
   \<and> map (\<lambda>item. (item_title item, item_path item, item_url item))
         (preorder (extractDocusaurusSidebarItems env lis))
     = map (\<lambda>a. (anchorTitle a, orEmpty (a_hrefAttribute a), a_href a)) (keptLinks lis)"
  using parseListItems_skip [of env pre sub post acc k] parseListItems_nodes [of env lis "[]" 0]
  by (simp add: extractDocusaurusSidebarItems_def)

theorem parseListItems_skips_subtree_witness:
  "map item_title (preorder (extractDocusaurusSidebarItems (\<lambda>k. (k, ''0.abc'')) exampleSidebar))
     = [''Intro'', ''Guides'', ''Setup'']
   \<and> exampleLink ''Hidden'' ''/docs/hidden'' \<in> set (everyLink exampleSidebar)
   \<and> parseListItems (\<lambda>k. (k, ''0.abc'')) exampleSidebar [] 0
     = parseListItems (\<lambda>k. (k, ''0.abc''))
         [Li (Some (exampleLink ''Intro'' ''/docs/intro'')) None,
          Li (Some (exampleLink ''Guides'' ''/docs/guides''))
             (Some [Li (Some (exampleLink '' Setup '' ''/docs/setup'')) None])] [] 0"
proof -
  note t = parseListItems_skips_subtree [of "\<lambda>k. (k, ''0.abc'')"
      "[Li (Some (exampleLink ''Intro'' ''/docs/intro'')) None]"
      "Some [Li (Some (exampleLink ''Hidden'' ''/docs/hidden'')) None]"
      "[Li (Some (exampleLink ''Guides'' ''/docs/guides''))
         (Some [Li (Some (exampleLink '' Setup '' ''/docs/setup'')) None])]" "[]" 0 exampleSidebar]
  have "map (\<lambda>a. anchorTitle a) (keptLinks exampleSidebar) = [''Intro'', ''Guides'', ''Setup'']"
    by (simp add: exampleSidebar_def exampleLink_def anchorTitle_def trim_def isSpace_def)
  moreover from t have "map fst (map (\<lambda>item. (item_title item, item_path item, item_url item))
         (preorder (extractDocusaurusSidebarItems (\<lambda>k. (k, ''0.abc'')) exampleSidebar)))
     = map fst (map (\<lambda>a. (anchorTitle a, orEmpty (a_hrefAttribute a), a_href a)) (keptLinks exampleSidebar))"
    by simp
  ultimately have a: "map item_title (preorder (extractDocusaurusSidebarItems (\<lambda>k. (k, ''0.abc'')) exampleSidebar))
     = [''Intro'', ''Guides'', ''Setup'']"
    by (simp add: comp_def)
  have b: "exampleLink ''Hidden'' ''/docs/hidden'' \<in> set (everyLink exampleSidebar)"
    by (simp add: exampleSidebar_def)
  from t have c: "parseListItems (\<lambda>k. (k, ''0.abc'')) exampleSidebar [] 0
     = parseListItems (\<lambda>k. (k, ''0.abc''))
         [Li (Some (exampleLink ''Intro'' ''/docs/intro'')) None,
          Li (Some (exampleLink ''Guides'' ''/docs/guides''))
             (Some [Li (Some (exampleLink '' Setup '' ''/docs/setup'')) None])] [] 0"
    by (simp add: exampleSidebar_def)
  from a b c show ?thesis by blast
qed

subsection \<open>Document assembler\<close>







subsection \<open>Process exit\<close>

lemma main_exit_codes:
  "snd (main options env) =
     (if truthy (opt_docsUrl options) \<and> truthy (opt_pdfPath options)
         \<and> (outputDir_exists env \<or> mkdirSync_ok env)
         \<and> (launchBrowser_ok env \<longrightarrow> browserClose_ok env)
      then 0 else 1)"
  by (auto simp: main_def convertDocusaurusPageToPdf_def Let_def)

text \<open>
  Claim C5. With both required options given, a browser that fails to launch makes
  \<open>convertDocusaurusPageToPdf\<close> log the error and return normally: \<open>main\<close> then logs
  that the process finished successfully and the process ends with code 0, where the
  claim has code 1.
\<close>

theorem main_exit_code_on_launch_failure:
  "convertDocusaurusPageToPdf launchFailure = ([LogConversionError], Inr ())
   \<and> main exampleOptions launchFailure = ([LogConversionError, LogAppEndSuccess], 0)"
  by (simp add: main_def convertDocusaurusPageToPdf_def launchFailure_def exampleOptions_def
      truthy_def)

end
